theory Spec2Isabelle
  imports Complex_Main "HOL-Library.Sublist" "HOL-Library.Log_Nat"
begin

section \<open>Resumable batch ingestion (import\_to\_qdrant.py)\<close>

text \<open>
  The vector store is an external collaborator. One call of
  \<^verbatim>\<open>QdrantVectorStore.from_documents(documents=batch, ...)\<close> takes the store from one
  state to the next and either returns or raises; the function under verification wraps
  the call in \<^verbatim>\<open>try: ... except Exception\<close>, so every exception is one of the two error
  answers. The store is a parameter of the model: a state type \<open>'s\<close> and a step function.
\<close>

datatype response = Success | RateLimitError | OtherError

type_synonym ('s, 'd) upsert = "'s \<Rightarrow> 'd list \<Rightarrow> response \<times> 's"

text \<open>
  The effects of a run: the state of the store, and the log of the calls made to it, each
  with the batch passed and whether the call returned without raising.
  \<^verbatim>\<open>time.sleep\<close> and the logger are not modelled.
\<close>

record ('s, 'd) world =
  store :: 's
  calls :: "('d list \<times> bool) list"

definition from_documents ::
  "('s, 'd) upsert \<Rightarrow> 'd list \<Rightarrow> ('s, 'd) world \<Rightarrow> bool \<times> ('s, 'd) world" where
  "from_documents upsert batch w =
     (case upsert (store w) batch of
        (r, s') \<Rightarrow> (r = Success, \<lparr>store = s', calls = calls w @ [(batch, r = Success)]\<rparr>))"


datatype py_error = ValueError | ZeroDivisionError

text \<open>
  How the body of the \<^verbatim>\<open>for\<close> loop is left: by falling through to the next iteration,
  or by the \<^verbatim>\<open>return success_count\<close> of the \<^verbatim>\<open>except\<close> branch.
\<close>

datatype flow = Next | Return

text \<open>
  The inner loop
  \<^verbatim>\<open>while not success and retry_count < MAX_RETRIES\<close>, with the local variables
  \<^verbatim>\<open>success\<close>, \<^verbatim>\<open>retry_count\<close> and \<^verbatim>\<open>success_count\<close> passed along.
\<close>

function retry_loop ::
  "nat \<Rightarrow> ('s, 'd) upsert \<Rightarrow> 'd list \<Rightarrow> bool \<Rightarrow> nat \<Rightarrow> nat \<times> ('s, 'd) world
     \<Rightarrow> flow \<times> nat \<times> ('s, 'd) world" where
  "retry_loop max_retries upsert batch success retry_count (success_count, w) =
     (if \<not> success \<and> retry_count < max_retries then
        (case from_documents upsert batch w of
           (True, w') \<Rightarrow>
             retry_loop max_retries upsert batch True retry_count
               (success_count + length batch, w')
         | (False, w') \<Rightarrow>
             (if retry_count + 1 < max_retries
              then retry_loop max_retries upsert batch False (retry_count + 1)
                     (success_count, w')
              else (Return, success_count, w')))
      else (Next, success_count, w))"
  by pat_completeness auto
termination
  by (relation "measure (\<lambda>(m, u, b, success, r, st). if success then 0 else Suc (m - r))")
     auto

declare retry_loop.simps [simp del]

text \<open>
  Python's \<^verbatim>\<open>range(0, n, step)\<close> for a positive step, and the loop
  \<^verbatim>\<open>for i in range(0, len(docs_to_process), BATCH_SIZE)\<close> over it; the slice
  \<^verbatim>\<open>docs_to_process[i : i + BATCH_SIZE]\<close> is \<open>take BATCH_SIZE (drop i docs_to_process)\<close>.
\<close>

definition py_range :: "nat \<Rightarrow> nat \<Rightarrow> nat list" where
  "py_range n step = map (\<lambda>j. j * step) [0..<(n + step - 1) div step]"






text \<open>
  The values the loop variable \<^verbatim>\<open>batch\<close> takes when the \<^verbatim>\<open>for\<close> loop runs over
  its whole range: \<^verbatim>\<open>[docs[i : i + B] for i in range(0, len(docs), B)]\<close>.
\<close>

definition batches :: "nat \<Rightarrow> 'd list \<Rightarrow> 'd list list" where
  "batches batch_size docs =
     map (\<lambda>i. take batch_size (drop i docs)) (py_range (length docs) batch_size)"

text \<open>The state of the store after \<open>n\<close> calls with the same batch.\<close>

fun store_after :: "('s, 'd) upsert \<Rightarrow> 'd list \<Rightarrow> nat \<Rightarrow> 's \<Rightarrow> 's" where
  "store_after upsert batch 0 s = s"
| "store_after upsert batch (Suc n) s = store_after upsert batch n (snd (upsert s batch))"




section \<open>The Chroma import script (import\_to\_vectordb.py)\<close>

text \<open>
  \<^verbatim>\<open>main()\<close> of the script, with the documents that it loads, the store and the answer of
  \<^verbatim>\<open>vector_store._collection.count()\<close> as parameters; \<open>None\<close> is a count that raises, which
  the bare \<^verbatim>\<open>except\<close> turns into \<open>0\<close>. The call \<^verbatim>\<open>vector_store.add_documents\<close> is the step
  of the store, modelled as above. The batch size and the retry bound are the literals
  \<open>5\<close> and \<open>3\<close> of the script, which returns no value.
\<close>

function add_retry_loop ::
  "('s, 'd) upsert \<Rightarrow> 'd list \<Rightarrow> bool \<Rightarrow> nat \<Rightarrow> ('s, 'd) world \<Rightarrow> bool \<times> ('s, 'd) world" where
  "add_retry_loop upsert batch success retry_count w =
     (if \<not> success \<and> retry_count < 3 then
        (case from_documents upsert batch w of
           (True, w') \<Rightarrow> add_retry_loop upsert batch True retry_count w'
         | (False, w') \<Rightarrow> add_retry_loop upsert batch False (retry_count + 1) w')
      else (success, w))"
  by pat_completeness auto
termination
  by (relation "measure (\<lambda>(u, b, success, r, w). if success then 0 else Suc (3 - r))") auto

declare add_retry_loop.simps [simp del]

fun main_for_loop ::
  "('s, 'd) upsert \<Rightarrow> 'd list \<Rightarrow> nat list \<Rightarrow> ('s, 'd) world \<Rightarrow> ('s, 'd) world" where
  "main_for_loop upsert docs_to_process [] w = w"
| "main_for_loop upsert docs_to_process (i # is) w =
     (case add_retry_loop upsert (take 5 (drop i docs_to_process)) False 0 w of
        (True, w') \<Rightarrow> main_for_loop upsert docs_to_process is w'
      | (False, w') \<Rightarrow> w')"

definition main ::
  "('s \<Rightarrow> int option) \<Rightarrow> ('s, 'd) upsert \<Rightarrow> 'd list \<Rightarrow> 's \<Rightarrow> ('s, 'd) world" where
  "main count upsert all_split_docs s =
     (let total_docs = int (length all_split_docs);
          existing_count = (case count s of Some n \<Rightarrow> n | None \<Rightarrow> 0);
          w = \<lparr>store = s, calls = []\<rparr>
      in if existing_count > 0
         then (if existing_count \<ge> total_docs then w
               else (let docs_to_process = drop (nat existing_count) all_split_docs
                     in main_for_loop upsert docs_to_process
                          (py_range (length docs_to_process) 5) w))
         else main_for_loop upsert all_split_docs (py_range (length all_split_docs) 5) w)"

text \<open>The \<^verbatim>\<open>existing_count\<close> that \<^verbatim>\<open>main\<close> computes.\<close>

definition chroma_existing_count :: "('s \<Rightarrow> int option) \<Rightarrow> 's \<Rightarrow> int" where
  "chroma_existing_count count s = (case count s of Some n \<Rightarrow> n | None \<Rightarrow> 0)"

section \<open>Ranking score (recommendatin\_food.py)\<close>



subsection \<open>Double precision\<close>





section \<open>Food recommendations (recommendatin\_food.py)\<close>

text \<open>
  A restaurant is a dictionary with the keys below, as the fetchers build it.
  Strings are byte strings: \<^verbatim>\<open>str.lower\<close> and \<^verbatim>\<open>str.strip\<close> are modelled on ASCII
  (the letters \<open>A\<close> to \<open>Z\<close>; the white space characters 9 to 13, 28 to 31 and 32), other
  bytes are left as they are.
\<close>

record restaurant =
  name :: string
  url :: string
  address :: string
  rating :: "real option"
  review_count :: int
  source :: string
  score :: real

definition is_space :: "char \<Rightarrow> bool" where
  "is_space c = ((of_char c :: nat) \<in> {9, 10, 11, 12, 13, 28, 29, 30, 31, 32})"

definition lower_char :: "char \<Rightarrow> char" where
  "lower_char c =
     (if 65 \<le> (of_char c :: nat) \<and> (of_char c :: nat) \<le> 90
      then char_of ((of_char c :: nat) + 32) else c)"

definition lower :: "string \<Rightarrow> string" where
  "lower s = map lower_char s"

definition strip :: "string \<Rightarrow> string" where
  "strip s = rev (dropWhile is_space (rev (dropWhile is_space s)))"

text \<open>\<^verbatim>\<open>name_normalized = restaurant['name'].lower().strip()\<close>\<close>

definition name_normalized :: "'a restaurant_scheme \<Rightarrow> string" where
  "name_normalized restaurant = strip (lower (name restaurant))"

text \<open>
  The loop of \<^verbatim>\<open>_deduplicate_and_rank\<close> over \<^verbatim>\<open>restaurants\<close>, with the two sets
  \<^verbatim>\<open>seen_names\<close> and \<^verbatim>\<open>seen_urls\<close> and the list \<^verbatim>\<open>unique\<close> passed along.
\<close>

fun dedup_loop ::
  "string set \<Rightarrow> string set \<Rightarrow> 'a restaurant_scheme list \<Rightarrow> 'a restaurant_scheme list
     \<Rightarrow> 'a restaurant_scheme list" where
  "dedup_loop seen_names seen_urls unique [] = unique"
| "dedup_loop seen_names seen_urls unique (restaurant # restaurants) =
     (if name_normalized restaurant \<in> seen_names \<or> url restaurant \<in> seen_urls
      then dedup_loop seen_names seen_urls unique restaurants
      else dedup_loop (insert (name_normalized restaurant) seen_names)
             (insert (url restaurant) seen_urls) (unique @ [restaurant]) restaurants)"

text \<open>
  \<^verbatim>\<open>unique.sort(key=lambda x: x['score'], reverse=True)\<close>: Python's sort is stable, and
  with \<^verbatim>\<open>reverse=True\<close> elements with equal keys keep their original order, so the list
  is sorted stably by the negated key.
\<close>

definition sort_reverse :: "('a \<Rightarrow> real) \<Rightarrow> 'a list \<Rightarrow> 'a list" where
  "sort_reverse key xs = sort_key (\<lambda>x. - key x) xs"

definition deduplicate_and_rank :: "'a restaurant_scheme list \<Rightarrow> 'a restaurant_scheme list" where
  "deduplicate_and_rank restaurants = sort_reverse score (dedup_loop {} {} [] restaurants)"

text \<open>Two records collide when the loop's test rejects the one after the other is kept.\<close>

definition collides :: "'a restaurant_scheme \<Rightarrow> 'a restaurant_scheme \<Rightarrow> bool" where
  "collides k r = (name_normalized k = name_normalized r \<or> url k = url r)"


section \<open>OpenStreetMap collector (osm\_collector.py)\<close>

text \<open>
  A POI is the dictionary built by \<^verbatim>\<open>_parse_element(element, category)\<close>. Of its keys only
  \<^verbatim>\<open>osm_id\<close> is read by \<^verbatim>\<open>collect_pois\<close>; \<^verbatim>\<open>category\<close> is the category under which
  the element was fetched, and the keys not listed are the rest of the record.
\<close>

record poi =
  osm_id :: int
  osm_type :: string
  category :: string

text \<open>
  A Python dictionary keeps its keys in insertion order: \<^verbatim>\<open>d[k] = v\<close> replaces the value
  of a key that is present, where it stands, and appends a key that is new.
\<close>

fun dict_setitem :: "('k \<times> 'v) list \<Rightarrow> 'k \<Rightarrow> 'v \<Rightarrow> ('k \<times> 'v) list" where
  "dict_setitem [] k v = [(k, v)]"
| "dict_setitem ((k', v') # d) k v =
     (if k' = k then (k, v) # d else (k', v') # dict_setitem d k v)"

text \<open>
  \<^verbatim>\<open>unique_pois = {poi["osm_id"]: poi for poi in all_pois}.values()\<close>, returned as
  \<^verbatim>\<open>list(unique_pois)\<close>.
\<close>

definition unique_pois :: "'a poi_scheme list \<Rightarrow> 'a poi_scheme list" where
  "unique_pois all_pois =
     map snd (foldl (\<lambda>d poi. dict_setitem d (osm_id poi) poi) [] all_pois)"

text \<open>
  The loop \<^verbatim>\<open>for category in categories\<close>: \<^verbatim>\<open>_fetch_category\<close> queries the Overpass
  servers, so it is a parameter of the model, a function of the category and of the state
  of the network that returns the POIs found and the next state.
\<close>

fun fetch_categories ::
  "('n \<Rightarrow> string \<Rightarrow> 'a poi_scheme list \<times> 'n) \<Rightarrow> string list \<Rightarrow> 'a poi_scheme list \<times> 'n
     \<Rightarrow> 'a poi_scheme list \<times> 'n" where
  "fetch_categories fetch_category [] (all_pois, net) = (all_pois, net)"
| "fetch_categories fetch_category (cat # categories) (all_pois, net) =
     (case fetch_category net cat of
        (pois, net') \<Rightarrow> fetch_categories fetch_category categories (all_pois @ pois, net'))"

text \<open>
  \<^verbatim>\<open>collect_pois(city, categories)\<close>; \<^verbatim>\<open>CITY_BOUNDS\<close> has the one key \<^verbatim>\<open>"Hanoi"\<close>, and
  any other city raises \<^verbatim>\<open>ValueError\<close> before anything is fetched.
\<close>

definition collect_pois ::
  "('n \<Rightarrow> string \<Rightarrow> 'a poi_scheme list \<times> 'n) \<Rightarrow> string \<Rightarrow> string list \<Rightarrow> 'n
     \<Rightarrow> py_error + ('a poi_scheme list \<times> 'n)" where
  "collect_pois fetch_category city categories net =
     (if city \<noteq> ''Hanoi'' then Inl ValueError
      else (case fetch_categories fetch_category categories ([], net) of
              (all_pois, net') \<Rightarrow> Inr (unique_pois all_pois, net')))"

text \<open>The last element of a list with a given key, if there is one.\<close>

definition last_with :: "('v \<Rightarrow> 'k) \<Rightarrow> 'k \<Rightarrow> 'v list \<Rightarrow> 'v option" where
  "last_with f k xs =
     (if k \<in> f ` set xs then Some (last (filter (\<lambda>x. f x = k) xs)) else None)"

text \<open>Answers of the Overpass servers for a concrete run: an element found under two categories.\<close>

definition sample_overpass :: "nat \<Rightarrow> string \<Rightarrow> poi list \<times> nat" where
  "sample_overpass net cat =
     (if cat = ''historic''
      then [\<lparr>osm_id = 1, osm_type = ''node'', category = ''historic''\<rparr>,
            \<lparr>osm_id = 2, osm_type = ''way'', category = ''historic''\<rparr>]
      else [\<lparr>osm_id = 1, osm_type = ''node'', category = cat\<rparr>],
      Suc net)"

section \<open>Properties of the ingestion loop\<close>

subsection \<open>One batch\<close>

lemma retry_loop_done [simp]: "retry_loop m up b True r st = (Next, st)"
  by (cases st) (simp add: retry_loop.simps)

lemma retry_loop_no_budget [simp]: "m \<le> r \<Longrightarrow> retry_loop m up b success r st = (Next, st)"
  by (cases st) (simp add: retry_loop.simps)

lemma from_documents_fail:
  "fst (up (store w) b) \<noteq> Success \<Longrightarrow>
   from_documents up b w =
     (False, \<lparr>store = snd (up (store w) b), calls = calls w @ [(b, False)]\<rparr>)"
  by (cases "up (store w) b") (simp add: from_documents_def)

lemma from_documents_ok:
  "fst (up (store w) b) = Success \<Longrightarrow>
   from_documents up b w =
     (True, \<lparr>store = snd (up (store w) b), calls = calls w @ [(b, True)]\<rparr>)"
  by (cases "up (store w) b") (simp add: from_documents_def)





subsection \<open>The index range and the batches\<close>

lemma length_py_range [simp]: "length (py_range n step) = (n + step - 1) div step"
  by (simp add: py_range_def)












subsection \<open>The loop over the batches\<close>




subsection \<open>The whole run\<close>







section \<open>Claims about the ingestion run\<close>











section \<open>The same properties of the Chroma import script\<close>

text \<open>
  \<^verbatim>\<open>main\<close> of \<^verbatim>\<open>import_to_vectordb.py\<close> is the same loop without a count: with nothing
  left to import it makes no call; a batch that fails three times is passed to the store
  three times and ends the loop; and when every call succeeds the calls are the batches of
  five of the documents from \<^verbatim>\<open>existing_count\<close> on, in order.
\<close>

lemma main_already_complete:
  assumes "int (length docs) \<le> chroma_existing_count count s"
  shows "main count up docs s = \<lparr>store = s, calls = []\<rparr>"
proof (cases "chroma_existing_count count s > 0")
  case True
  then show ?thesis using assms by (simp add: main_def chroma_existing_count_def Let_def)
next
  case False
  with assms have "int (length docs) \<le> 0" by linarith
  then have "docs = []" by simp
  then show ?thesis using False
    by (simp add: main_def chroma_existing_count_def Let_def py_range_def)
qed

lemma add_retry_loop_over [simp]: "3 \<le> r \<Longrightarrow> add_retry_loop up b success r w = (success, w)"
  by (subst add_retry_loop.simps) simp

lemma add_retry_loop_fails:
  assumes "3 - r = Suc d" "\<forall>n\<le>d. fst (up (store_after up b n (store w)) b) \<noteq> Success"
  shows "add_retry_loop up b False r w =
           (False, \<lparr>store = store_after up b (Suc d) (store w),
                    calls = calls w @ replicate (Suc d) (b, False)\<rparr>)"
  using assms
proof (induction d arbitrary: r w)
  case 0
  then have "fst (up (store w) b) \<noteq> Success" by simp
  with 0(1) show ?case
    by (subst add_retry_loop.simps) (auto simp: from_documents_fail)
next
  case (Suc d)
  have f0: "fst (up (store w) b) \<noteq> Success" using Suc.prems(2)[rule_format, of 0] by simp
  let ?w' = "\<lparr>store = snd (up (store w) b), calls = calls w @ [(b, False)]\<rparr>"
  have "\<forall>n\<le>d. fst (up (store_after up b n (store ?w')) b) \<noteq> Success"
    using Suc.prems(2) by (auto dest: spec[of _ "Suc n" for n])
  moreover have "3 - (r + 1) = Suc d" using Suc.prems(1) by simp
  ultimately have "add_retry_loop up b False (r + 1) ?w' =
           (False, \<lparr>store = store_after up b (Suc d) (store ?w'),
                    calls = calls ?w' @ replicate (Suc d) (b, False)\<rparr>)"
    by (rule Suc.IH[rotated])
  then show ?case
    using Suc.prems(1) f0
    by (subst add_retry_loop.simps) (simp add: from_documents_fail replicate_app_Cons_same)
qed

lemma add_retry_loop_all_fail:
  assumes "\<forall>n<3. fst (up (store_after up b n (store w)) b) \<noteq> Success"
  shows "add_retry_loop up b False 0 w =
           (False, \<lparr>store = store_after up b 3 (store w), calls = calls w @ replicate 3 (b, False)\<rparr>)"
proof -
  have "3 - (0::nat) = Suc 2" by simp
  moreover have "\<forall>n\<le>2. fst (up (store_after up b n (store w)) b) \<noteq> Success"
    using assms by auto
  ultimately have "add_retry_loop up b False 0 w =
           (False, \<lparr>store = store_after up b (Suc 2) (store w),
                    calls = calls w @ replicate (Suc 2) (b, False)\<rparr>)"
    by (rule add_retry_loop_fails)
  moreover have "Suc 2 = 3" by simp
  ultimately show ?thesis by (simp only:)
qed

lemma main_for_loop_stops:
  assumes "\<forall>n<3. fst (up (store_after up (take 5 (drop i docs)) n (store w)) (take 5 (drop i docs))) \<noteq> Success"
  shows "main_for_loop up docs (i # is) w =
           \<lparr>store = store_after up (take 5 (drop i docs)) 3 (store w),
             calls = calls w @ replicate 3 (take 5 (drop i docs), False)\<rparr>"
  using add_retry_loop_all_fail[OF assms] by simp

lemma add_retry_loop_accept:
  assumes "fst (up (store w) b) = Success"
  shows "add_retry_loop up b False 0 w =
           (True, \<lparr>store = snd (up (store w) b), calls = calls w @ [(b, True)]\<rparr>)"
proof -
  let ?w1 = "\<lparr>store = snd (up (store w) b), calls = calls w @ [(b, True)]\<rparr>"
  have 1: "from_documents up b w = (True, ?w1)" using assms by (rule from_documents_ok)
  have "add_retry_loop up b True 0 ?w1 = (True, ?w1)"
    by (subst add_retry_loop.simps) simp
  then show ?thesis using 1 by (subst add_retry_loop.simps) simp
qed

lemma main_for_loop_accept:
  assumes "\<forall>s b. fst (up s b) = Success"
  shows "calls (main_for_loop up docs is w) = calls w @ map (\<lambda>i. (take 5 (drop i docs), True)) is"
proof (induction "is" arbitrary: w)
  case Nil
  show ?case by simp
next
  case (Cons i "is")
  have "fst (up (store w) (take 5 (drop i docs))) = Success" using assms by simp
  then have "add_retry_loop up (take 5 (drop i docs)) False 0 w =
      (True, \<lparr>store = snd (up (store w) (take 5 (drop i docs))),
               calls = calls w @ [(take 5 (drop i docs), True)]\<rparr>)"
    by (rule add_retry_loop_accept)
  then show ?case using Cons by simp
qed

lemma main_accept:
  assumes "\<forall>s b. fst (up s b) = Success" "0 \<le> chroma_existing_count count s"
  shows "calls (main count up docs s) =
           map (\<lambda>b. (b, True)) (batches 5 (drop (nat (chroma_existing_count count s)) docs))"
proof (cases "int (length docs) \<le> chroma_existing_count count s")
  case True
  then have "drop (nat (chroma_existing_count count s)) docs = []" by simp
  then show ?thesis using main_already_complete[OF True, of up]
    by (simp add: batches_def py_range_def)
next
  case False
  then show ?thesis
    using main_for_loop_accept[OF assms(1)] assms(2)
    by (auto simp: main_def chroma_existing_count_def Let_def batches_def comp_def)
qed

section \<open>Properties of the ranking score\<close>








subsection \<open>Double precision rounding is a rounding\<close>











section \<open>Claims about the ranking score\<close>






section \<open>Properties of deduplication and ranking\<close>

lemma dedup_loop_snoc_state:
  assumes "sn = name_normalized ` set u" "su = url ` set u"
  shows "dedup_loop sn su u (xs @ ys) =
           dedup_loop (name_normalized ` set (dedup_loop sn su u xs))
             (url ` set (dedup_loop sn su u xs)) (dedup_loop sn su u xs) ys"
  using assms
proof (induction xs arbitrary: sn su u)
  case Nil
  then show ?case by simp
next
  case (Cons x xs)
  show ?case
  proof (cases "name_normalized x \<in> sn \<or> url x \<in> su")
    case True
    then show ?thesis using Cons.IH[OF Cons.prems] by simp
  next
    case False
    have "insert (name_normalized x) sn = name_normalized ` set (u @ [x])"
      "insert (url x) su = url ` set (u @ [x])"
      using Cons.prems by simp_all
    from Cons.IH[OF this] False show ?thesis by simp
  qed
qed

lemma dedup_loop_prefix:
  "\<exists>ys. dedup_loop sn su u xs = u @ ys \<and> subseq ys xs"
proof (induction xs arbitrary: sn su u)
  case Nil
  then show ?case by simp
next
  case (Cons x xs)
  show ?case
  proof (cases "name_normalized x \<in> sn \<or> url x \<in> su")
    case True
    with Cons[of sn su u] show ?thesis by (auto intro: subseq_Cons')
  next
    case False
    from Cons[of "insert (name_normalized x) sn" "insert (url x) su" "u @ [x]"]
    obtain ys where "dedup_loop (insert (name_normalized x) sn) (insert (url x) su) (u @ [x]) xs =
        (u @ [x]) @ ys" "subseq ys xs" by blast
    with False show ?thesis by (intro exI[of _ "x # ys"]) auto
  qed
qed

lemma dedup_loop_distinct:
  assumes "sn = name_normalized ` set u" "su = url ` set u"
    "distinct (map name_normalized u)" "distinct (map url u)"
  shows "distinct (map name_normalized (dedup_loop sn su u xs)) \<and>
         distinct (map url (dedup_loop sn su u xs))"
  using assms
proof (induction xs arbitrary: sn su u)
  case Nil
  then show ?case by simp
next
  case (Cons x xs)
  show ?case
  proof (cases "name_normalized x \<in> sn \<or> url x \<in> su")
    case True
    then show ?thesis using Cons.IH[OF Cons.prems] by simp
  next
    case False
    have "insert (name_normalized x) sn = name_normalized ` set (u @ [x])"
      "insert (url x) su = url ` set (u @ [x])"
      "distinct (map name_normalized (u @ [x]))" "distinct (map url (u @ [x]))"
      using Cons.prems False by simp_all
    from Cons.IH[OF this] False show ?thesis by simp
  qed
qed

lemma dedup_loop_snoc:
  "dedup_loop {} {} [] (xs @ [r]) =
     (if \<exists>k \<in> set (dedup_loop {} {} [] xs). collides k r
      then dedup_loop {} {} [] xs else dedup_loop {} {} [] xs @ [r])"
  by (subst dedup_loop_snoc_state) (auto simp: collides_def image_iff)

lemma dedup_loop_subseq: "subseq (dedup_loop {} {} [] xs) xs"
  using dedup_loop_prefix[of "{}" "{}" "[]" xs] by auto




text \<open>A list without collisions passes the loop unchanged.\<close>
lemma dedup_loop_id:
  assumes "distinct (map name_normalized xs)" "distinct (map url xs)"
  shows "dedup_loop {} {} [] xs = xs"
  using assms
proof (induction xs rule: rev_induct)
  case Nil
  then show ?case by simp
next
  case (snoc x xs)
  then have "dedup_loop {} {} [] xs = xs" by simp
  moreover have "\<not> (\<exists>k \<in> set xs. collides k x)"
    using snoc.prems by (auto simp: collides_def image_iff)
  ultimately show ?case by (simp add: dedup_loop_snoc)
qed

lemma distinct_map_insort_key:
  "distinct (map g (insort_key f x xs)) = (g x \<notin> g ` set xs \<and> distinct (map g xs))"
  by (induction xs) (auto simp: set_insort_key)

lemma distinct_map_sort_key:
  "distinct (map g (sort_key f xs)) = distinct (map g xs)"
  by (induction xs) (auto simp: distinct_map_insort_key)

lemma sorted_desc_sort_reverse:
  "sorted_wrt (\<lambda>a b. key a \<ge> key b) (sort_reverse key xs)"
proof -
  have "sorted (map (\<lambda>x. - key x) (sort_key (\<lambda>x. - key x) xs))" by (rule sorted_sort_key)
  then show ?thesis
    by (simp add: sort_reverse_def sorted_map sorted_wrt_iff_nth_less)
qed

lemma sort_reverse_stable:
  "filter (\<lambda>x. key x = k) (sort_reverse key xs) = filter (\<lambda>x. key x = k) xs"
proof -
  have "filter (\<lambda>x. - key x = - k) (sort_key (\<lambda>x. - key x) xs) = filter (\<lambda>x. - key x = - k) xs"
    by (rule sort_key_stable)
  then show ?thesis by (simp add: sort_reverse_def)
qed

lemma sort_reverse_id:
  "sorted_wrt (\<lambda>a b. key a \<ge> key b) xs \<Longrightarrow> sort_reverse key xs = xs"
  unfolding sort_reverse_def
  by (rule sort_key_id_if_sorted) (simp add: sorted_map sorted_wrt_iff_nth_less)

lemma set_sort_reverse [simp]: "set (sort_reverse key xs) = set xs"
  by (simp add: sort_reverse_def)

lemma distinct_map_sort_reverse:
  "distinct (map g (sort_reverse key xs)) = distinct (map g xs)"
  by (simp add: sort_reverse_def distinct_map_sort_key)


lemma is_space_lower_char [simp]: "is_space (lower_char c) = is_space c"
proof (cases "65 \<le> (of_char c :: nat) \<and> (of_char c :: nat) \<le> 90")
  case True
  then have "((of_char c :: nat) + 32) mod 256 = of_char c + 32" by simp
  then have "(of_char (lower_char c) :: nat) = of_char c + 32"
    using True by (simp add: lower_char_def)
  then show ?thesis using True by (simp add: is_space_def)
next
  case False
  then have "lower_char c = c" unfolding lower_char_def by (rule if_not_P)
  then show ?thesis by simp
qed








section \<open>Claims about deduplication and ranking\<close>




text \<open>
  Claim C8. Deduplication and ranking is idempotent: applied to its own output it returns
  that output, the same records in the same order.
\<close>

theorem dedup_idempotent:
  "deduplicate_and_rank (deduplicate_and_rank restaurants) = deduplicate_and_rank restaurants"
proof -
  let ?u = "dedup_loop {} {} [] restaurants"
  let ?out = "deduplicate_and_rank restaurants"
  have d: "distinct (map name_normalized ?u) \<and> distinct (map url ?u)"
    by (rule dedup_loop_distinct) simp_all
  then have "distinct (map name_normalized ?out)" "distinct (map url ?out)"
    by (simp_all add: deduplicate_and_rank_def distinct_map_sort_reverse)
  then have "dedup_loop {} {} [] ?out = ?out" by (rule dedup_loop_id)
  moreover have "sort_reverse score ?out = ?out"
    unfolding deduplicate_and_rank_def by (rule sort_reverse_id) (rule sorted_desc_sort_reverse)
  ultimately show ?thesis by (simp add: deduplicate_and_rank_def)
qed

text \<open>
  Claim C9. The output is sorted by descending score, and records with equal scores stand
  in the order in which the loop kept them, which is their order in the input: the kept
  records are a subsequence of the input, and for every score the records of the output
  with that score are, in order, the kept records with that score. The output is a
  function of the input list alone.
\<close>

theorem ranked_descending_stable:
  "sorted_wrt (\<lambda>a b. score a \<ge> score b) (deduplicate_and_rank restaurants) \<and>
   (\<forall>s. filter (\<lambda>r. score r = s) (deduplicate_and_rank restaurants) =
        filter (\<lambda>r. score r = s) (dedup_loop {} {} [] restaurants)) \<and>
   subseq (dedup_loop {} {} [] restaurants) restaurants"
  by (simp add: deduplicate_and_rank_def sorted_desc_sort_reverse sort_reverse_stable
      dedup_loop_subseq)

section \<open>Properties of the OSM collector\<close>

lemma map_fst_dict_setitem:
  "map fst (dict_setitem d k v) = (if k \<in> fst ` set d then map fst d else map fst d @ [k])"
  by (induction d k v rule: dict_setitem.induct) auto

lemma distinct_dict_setitem:
  "distinct (map fst d) \<Longrightarrow> distinct (map fst (dict_setitem d k v))"
  by (simp add: map_fst_dict_setitem)

lemma map_of_dict_setitem: "map_of (dict_setitem d k v) = (map_of d)(k \<mapsto> v)"
  by (induction d k v rule: dict_setitem.induct) auto

lemma last_with_snoc:
  "last_with f k (xs @ [x]) = (if f x = k then Some x else last_with f k xs)"
  by (auto simp: last_with_def filter_empty_conv)

lemma last_with_SomeD:
  assumes "last_with f k xs = Some p"
  shows "f p = k \<and> p \<in> set xs \<and> p = last (filter (\<lambda>x. f x = k) xs)"
proof -
  from assms have k: "k \<in> f ` set xs" and p: "p = last (filter (\<lambda>x. f x = k) xs)"
    by (auto simp: last_with_def split: if_splits)
  from k have "filter (\<lambda>x. f x = k) xs \<noteq> []" by (auto simp: filter_empty_conv)
  then have "p \<in> set (filter (\<lambda>x. f x = k) xs)" unfolding p by (rule last_in_set)
  then show ?thesis using p by simp
qed

lemma foldl_dict:
  "distinct (map fst (foldl (\<lambda>d x. dict_setitem d (f x) x) [] xs)) \<and>
   map_of (foldl (\<lambda>d x. dict_setitem d (f x) x) [] xs) = (\<lambda>k. last_with f k xs)"
proof (induction xs rule: rev_induct)
  case Nil
  then show ?case by (simp add: last_with_def)
next
  case (snoc x xs)
  then show ?case
    by (auto simp: distinct_dict_setitem map_of_dict_setitem last_with_snoc fun_eq_iff)
qed

lemma foldl_dict_keys:
  "set (map fst (foldl (\<lambda>d x. dict_setitem d (f x) x) [] xs)) = f ` set xs"
  by (induction xs rule: rev_induct) (auto simp: map_fst_dict_setitem)

lemma unique_pois_kept:
  assumes "p \<in> set (unique_pois all_pois)"
  shows "last_with osm_id (osm_id p) all_pois = Some p"
proof -
  let ?d = "foldl (\<lambda>d x. dict_setitem d (osm_id x) x) [] all_pois"
  from assms obtain k where kp: "(k, p) \<in> set ?d" by (auto simp: unique_pois_def)
  have d: "distinct (map fst ?d)" and m: "map_of ?d = (\<lambda>k. last_with osm_id k all_pois)"
    using foldl_dict[of osm_id all_pois] by simp_all
  from kp d have "map_of ?d k = Some p" by simp
  then have l: "last_with osm_id k all_pois = Some p" using m by simp
  then have "osm_id p = k" by (auto dest: last_with_SomeD)
  with l show ?thesis by simp
qed

lemma unique_pois_ids: "osm_id ` set (unique_pois all_pois) = osm_id ` set all_pois"
proof
  show "osm_id ` set (unique_pois all_pois) \<subseteq> osm_id ` set all_pois"
    by (auto dest!: unique_pois_kept last_with_SomeD)
next
  let ?d = "foldl (\<lambda>d x. dict_setitem d (osm_id x) x) [] all_pois"
  show "osm_id ` set all_pois \<subseteq> osm_id ` set (unique_pois all_pois)"
  proof
    fix k assume k: "k \<in> osm_id ` set all_pois"
    then have "k \<in> set (map fst ?d)" by (simp only: foldl_dict_keys)
    then obtain p where kp: "(k, p) \<in> set ?d" by auto
    then have p: "p \<in> set (unique_pois all_pois)" by (force simp: unique_pois_def)
    have "distinct (map fst ?d)" using foldl_dict[of osm_id all_pois] by simp
    with kp have "map_of ?d k = Some p" by simp
    then have "last_with osm_id k all_pois = Some p"
      using foldl_dict[of osm_id all_pois] by simp
    then have "osm_id p = k" by (auto dest: last_with_SomeD)
    with p show "k \<in> osm_id ` set (unique_pois all_pois)" by auto
  qed
qed

lemma unique_pois_distinct: "distinct (map osm_id (unique_pois all_pois))"
proof -
  let ?d = "foldl (\<lambda>d x. dict_setitem d (osm_id x) x) [] all_pois"
  have "\<forall>(k, p) \<in> set ?d. osm_id p = k"
  proof (clarify)
    fix k p assume kp: "(k, p) \<in> set ?d"
    have "distinct (map fst ?d)" using foldl_dict[of osm_id all_pois] by simp
    with kp have "map_of ?d k = Some p" by simp
    then have "last_with osm_id k all_pois = Some p"
      using foldl_dict[of osm_id all_pois] by simp
    then show "osm_id p = k" by (auto dest: last_with_SomeD)
  qed
  then have "map osm_id (map snd ?d) = map fst ?d" by (auto simp: map_eq_conv)  
  moreover have "distinct (map fst ?d)" using foldl_dict[of osm_id all_pois] by simp
  ultimately show ?thesis by (simp add: unique_pois_def del: map_map)
qed


section \<open>Claims about the OSM collector\<close>

text \<open>
  Claim C10. For a supported city, with \<open>all_pois\<close> the POIs accumulated over the
  categories in order: the output is the list \<open>unique_pois all_pois\<close>; no \<open>osm_id\<close> occurs
  twice in it; its ids are the ids of \<open>all_pois\<close>; and each POI of the output is the last
  POI of \<open>all_pois\<close> with its id, not the first. In the concrete run an element found under
  \<open>historic\<close> and again under \<open>monument\<close> is returned with the category \<open>monument\<close>.
\<close>

theorem collect_pois_keeps_last_per_id:
  assumes "city = ''Hanoi''"
    and "fetch_categories fetch_category categories ([], net) = (all_pois, net')"
  shows "collect_pois fetch_category city categories net = Inr (unique_pois all_pois, net') \<and>
         distinct (map osm_id (unique_pois all_pois)) \<and>
         osm_id ` set (unique_pois all_pois) = osm_id ` set all_pois \<and>
         (\<forall>p \<in> set (unique_pois all_pois).
             p \<in> set all_pois \<and> p = last (filter (\<lambda>q. osm_id q = osm_id p) all_pois))"
proof (intro conjI ballI)
  show "collect_pois fetch_category city categories net = Inr (unique_pois all_pois, net')"
    using assms by (simp add: collect_pois_def)
  show "distinct (map osm_id (unique_pois all_pois))" by (rule unique_pois_distinct)
  show "osm_id ` set (unique_pois all_pois) = osm_id ` set all_pois" by (rule unique_pois_ids)
next
  fix p assume "p \<in> set (unique_pois all_pois)"
  then have "last_with osm_id (osm_id p) all_pois = Some p" by (rule unique_pois_kept)
  then have l: "osm_id p = osm_id p \<and> p \<in> set all_pois \<and>
      p = last (filter (\<lambda>x. osm_id x = osm_id p) all_pois)"
    by (rule last_with_SomeD)
  from l show "p \<in> set all_pois" by simp
  from l show "p = last (filter (\<lambda>q. osm_id q = osm_id p) all_pois)" by simp
qed

theorem collect_pois_keeps_last_per_id_witness:
  "collect_pois sample_overpass ''Hanoi'' [''historic'', ''monument''] 0 =
     Inr ([\<lparr>osm_id = 1, osm_type = ''node'', category = ''monument''\<rparr>,
           \<lparr>osm_id = 2, osm_type = ''way'', category = ''historic''\<rparr>], 2)"
proof -
  let ?all = "[\<lparr>osm_id = 1, osm_type = ''node'', category = ''historic''\<rparr>,
               \<lparr>osm_id = 2, osm_type = ''way'', category = ''historic''\<rparr>,
               \<lparr>osm_id = 1, osm_type = ''node'', category = ''monument''\<rparr>]"
  have f: "fetch_categories sample_overpass [''historic'', ''monument''] ([], 0) = (?all, 2)"
    by code_simp
  have u: "unique_pois ?all =
      [\<lparr>osm_id = 1, osm_type = ''node'', category = ''monument''\<rparr>,
       \<lparr>osm_id = 2, osm_type = ''way'', category = ''historic''\<rparr>]"
    by code_simp
  have "collect_pois sample_overpass ''Hanoi'' [''historic'', ''monument''] 0 =
          Inr (unique_pois ?all, 2)"
    using collect_pois_keeps_last_per_id[OF refl f] by (rule conjunct1)
  then show ?thesis unfolding u .
qed

end
